theory Spec2Isabelle
  imports Complex_Main "HOL-Library.Log_Nat"
begin

section \<open>Data model\<close>

text \<open>
  The text helpers of class \<open>ERPTrainingDoc\<close> in \<^verbatim>\<open>generate_training_pdf.py\<close>:
  \<open>draw_text\<close> (truncating) and \<open>draw_wrapped_text\<close> (greedy word wrapping).

  A Python \<open>str\<close> is a sequence of Unicode code points and \<open>len\<close> counts code points, so a
  text is a list of code points (natural numbers). \<open>u\<close> writes a literal: \<open>u ''a b''\<close> is
  the text \<open>"a b"\<close>. Font names and colours are only passed through to the canvas and stay
  ordinary strings.
\<close>

type_synonym str = "nat list"

definition u :: "string \<Rightarrow> str" where
  "u s = map of_char s"

text \<open>
  The canvas of the PDF library is the external drawing surface. It is modelled as the
  sequence of calls made on it, in order; every number (coordinate, size, width) has one
  numeric type \<open>'n\<close>.
\<close>

datatype 'n canvas_op =
    SaveState
  | RestoreState
  | SetFont string 'n
  | SetFillColor string
  | DrawString 'n 'n str
  | DrawCentredString 'n 'n str
  | DrawRightString 'n 'n str

text \<open>The instance attributes set by \<open>__init__\<close>: \<open>self.c\<close>, \<open>self.page_num\<close>, \<open>self.y\<close>.\<close>

record 'n ERPTrainingDoc =
  doc_c :: "'n canvas_op list"
  doc_page_num :: int
  doc_y :: 'n

section \<open>Whitespace splitting\<close>

text \<open>
  \<open>str.split()\<close> without arguments splits at runs of whitespace and drops empty pieces.
  Whitespace is what \<open>str.isspace\<close> accepts for a single character.
\<close>

definition isspace :: "nat \<Rightarrow> bool" where
  "isspace ch \<longleftrightarrow>
     (9 \<le> ch \<and> ch \<le> 13) \<or> (28 \<le> ch \<and> ch \<le> 32) \<or> ch = 133 \<or> ch = 160 \<or>
     ch = 5760 \<or> (8192 \<le> ch \<and> ch \<le> 8202) \<or> ch = 8232 \<or> ch = 8233 \<or>
     ch = 8239 \<or> ch = 8287 \<or> ch = 12288"

fun split_from :: "str \<Rightarrow> str \<Rightarrow> str list" where
  "split_from word [] = (if word \<noteq> [] then [word] else [])"
| "split_from word (ch # rest) =
     (if isspace ch
      then (if word \<noteq> [] then word # split_from [] rest else split_from [] rest)
      else split_from (word @ [ch]) rest)"

definition str_split :: "str \<Rightarrow> str list" where
  "str_split text = split_from [] text"

section \<open>draw\_wrapped\_text\<close>

text \<open>
  \<open>sw\<close> is the canvas method \<open>stringWidth(text, font, size)\<close> of the PDF library, taken as a
  parameter. The first loop of \<open>draw_wrapped_text\<close> runs over the words with the local
  variables \<open>lines\<close> and \<open>current_line\<close> as its state; a string is true when it is
  not empty.
\<close>

fun wrap_loop ::
  "(str \<Rightarrow> string \<Rightarrow> 'n \<Rightarrow> 'n::ord) \<Rightarrow> string \<Rightarrow> 'n \<Rightarrow> 'n \<Rightarrow> str list \<Rightarrow> str list \<times> str
     \<Rightarrow> str list \<times> str" where
  "wrap_loop sw font fsize max_width [] (lines, current_line) = (lines, current_line)"
| "wrap_loop sw font fsize max_width (word # words) (lines, current_line) =
     (let test = current_line @ (if current_line \<noteq> [] then u '' '' else []) @ word in
      if sw test font fsize \<le> max_width
      then wrap_loop sw font fsize max_width words (lines, test)
      else wrap_loop sw font fsize max_width words
             (if current_line \<noteq> [] then lines @ [current_line] else lines, word))"

text \<open>The local variable \<open>lines\<close> after the loop and the final \<open>if current_line\<close>.\<close>

definition wrap_lines ::
  "(str \<Rightarrow> string \<Rightarrow> 'n \<Rightarrow> 'n::ord) \<Rightarrow> string \<Rightarrow> 'n \<Rightarrow> 'n \<Rightarrow> str \<Rightarrow> str list" where
  "wrap_lines sw font fsize max_width text =
     (case wrap_loop sw font fsize max_width (str_split text) ([], []) of
        (lines, current_line) \<Rightarrow>
          if current_line \<noteq> [] then lines @ [current_line] else lines)"

text \<open>The second loop: draw each line at \<open>(x, y)\<close> and move \<open>y\<close> down by \<open>leading\<close>.\<close>

fun draw_lines ::
  "'n canvas_op list \<Rightarrow> 'n \<Rightarrow> 'n::minus \<Rightarrow> 'n \<Rightarrow> str list \<Rightarrow> 'n canvas_op list \<times> 'n" where
  "draw_lines cv x y leading [] = (cv, y)"
| "draw_lines cv x y leading (line # lines) =
     draw_lines (cv @ [DrawString x y line]) x (y - leading) leading lines"

text \<open>The method returns the final \<open>y\<close>; the updated object is returned beside it.\<close>

definition draw_wrapped_text ::
  "(str \<Rightarrow> string \<Rightarrow> 'n \<Rightarrow> 'n::{ord,minus}) \<Rightarrow> 'n ERPTrainingDoc \<Rightarrow> str \<Rightarrow> 'n \<Rightarrow> 'n \<Rightarrow> 'n
     \<Rightarrow> string \<Rightarrow> 'n \<Rightarrow> string \<Rightarrow> 'n \<Rightarrow> 'n ERPTrainingDoc \<times> 'n" where
  "draw_wrapped_text sw self text x y max_width font fsize color leading =
     (let cv0 = doc_c self @ [SaveState, SetFont font fsize, SetFillColor color];
          lines = wrap_lines sw font fsize max_width text
      in case draw_lines cv0 x y leading lines of
           (cv1, y') \<Rightarrow> (self\<lparr>doc_c := cv1 @ [RestoreState]\<rparr>, y'))"

text \<open>
  What a call put on the canvas: the calls added to \<open>self.c\<close>, and among them the strings
  given to \<open>drawString\<close>, in order.
\<close>

definition added_ops :: "'n ERPTrainingDoc \<Rightarrow> 'n ERPTrainingDoc \<Rightarrow> 'n canvas_op list" where
  "added_ops before after = drop (length (doc_c before)) (doc_c after)"

fun drawn_strings :: "'n canvas_op list \<Rightarrow> str list" where
  "drawn_strings [] = []"
| "drawn_strings (DrawString x y s # ops) = s # drawn_strings ops"
| "drawn_strings (DrawCentredString x y s # ops) = s # drawn_strings ops"
| "drawn_strings (DrawRightString x y s # ops) = s # drawn_strings ops"
| "drawn_strings (other # ops) = drawn_strings ops"

definition output_lines ::
  "(str \<Rightarrow> string \<Rightarrow> 'n \<Rightarrow> 'n::{ord,minus}) \<Rightarrow> 'n ERPTrainingDoc \<Rightarrow> str \<Rightarrow> 'n \<Rightarrow> 'n \<Rightarrow> 'n
     \<Rightarrow> string \<Rightarrow> 'n \<Rightarrow> string \<Rightarrow> 'n \<Rightarrow> str list" where
  "output_lines sw self text x y max_width font fsize color leading =
     drawn_strings (added_ops self
       (fst (draw_wrapped_text sw self text x y max_width font fsize color leading)))"

section \<open>draw\_text\<close>

text \<open>
  The truncation loop. \<open>text[:-4]\<close> drops the last four characters (the loop only runs on
  a text of length at least four) and \<open>'...'\<close> is appended.
\<close>

definition truncate_step :: "str \<Rightarrow> str" where
  "truncate_step text = take (length text - 4) text @ u ''...''"

function truncate_loop ::
  "(str \<Rightarrow> string \<Rightarrow> 'n \<Rightarrow> 'n::ord) \<Rightarrow> string \<Rightarrow> 'n \<Rightarrow> 'n \<Rightarrow> str \<Rightarrow> str" where
  "truncate_loop sw font fsize max_width text =
     (if sw text font fsize > max_width \<and> length text > 3
      then truncate_loop sw font fsize max_width (truncate_step text)
      else text)"
  by pat_completeness auto
termination
  by (relation "measure (\<lambda>(sw, font, fsize, max_width, text). length text)")
     (auto simp: truncate_step_def u_def)

declare truncate_loop.simps [simp del]

text \<open>
  \<open>max_width\<close> defaults to \<open>None\<close>; \<open>if max_width:\<close> is true for a number other than zero.
  The method returns nothing, so the model returns the updated object.
\<close>

definition draw_text ::
  "(str \<Rightarrow> string \<Rightarrow> 'n \<Rightarrow> 'n::{ord,zero}) \<Rightarrow> 'n ERPTrainingDoc \<Rightarrow> str \<Rightarrow> 'n \<Rightarrow> 'n
     \<Rightarrow> string \<Rightarrow> 'n \<Rightarrow> string \<Rightarrow> string \<Rightarrow> 'n option \<Rightarrow> 'n ERPTrainingDoc" where
  "draw_text sw self text x y font fsize color align max_width =
     (let cv0 = doc_c self @ [SaveState, SetFont font fsize, SetFillColor color];
          text' = (case max_width of
                     None \<Rightarrow> text
                   | Some w \<Rightarrow> if w \<noteq> 0 then truncate_loop sw font fsize w text else text);
          cv1 = (if align = ''center'' then cv0 @ [DrawCentredString x y text']
                 else if align = ''right'' then cv0 @ [DrawRightString x y text']
                 else cv0 @ [DrawString x y text'])
      in self\<lparr>doc_c := cv1 @ [RestoreState]\<rparr>)"

text \<open>A fixed-pitch metric for concrete runs: every character is \<open>fsize\<close> wide.\<close>

definition fixed_pitch :: "str \<Rightarrow> string \<Rightarrow> int \<Rightarrow> int" where
  "fixed_pitch text font fsize = int (length text) * fsize"

section \<open>Words and groups of words\<close>

text \<open>
  Auxiliary notions for the proofs. A word is a non-empty text without whitespace;
  \<open>join_words\<close> is \<open>' '.join\<close>. \<open>group_loop\<close> is the wrapping loop seen on lists of words
  instead of joined strings, with the same test; \<open>wrap_loop_groups\<close> below shows that the
  loop of the source computes the joined groups.
\<close>

definition word_ok :: "str \<Rightarrow> bool" where
  "word_ok w \<longleftrightarrow> w \<noteq> [] \<and> (\<forall>ch \<in> set w. \<not> isspace ch)"

fun join_words :: "str list \<Rightarrow> str" where
  "join_words [] = []"
| "join_words [w] = w"
| "join_words (w # ws) = w @ u '' '' @ join_words ws"

fun group_loop ::
  "(str \<Rightarrow> string \<Rightarrow> 'n \<Rightarrow> 'n::ord) \<Rightarrow> string \<Rightarrow> 'n \<Rightarrow> 'n \<Rightarrow> str list \<Rightarrow> str list list \<times> str list
     \<Rightarrow> str list list \<times> str list" where
  "group_loop sw font fsize max_width [] (groups, cur) = (groups, cur)"
| "group_loop sw font fsize max_width (word # words) (groups, cur) =
     (if sw (join_words (cur @ [word])) font fsize \<le> max_width
      then group_loop sw font fsize max_width words (groups, cur @ [word])
      else group_loop sw font fsize max_width words
             (if cur \<noteq> [] then groups @ [cur] else groups, [word]))"

definition word_groups ::
  "(str \<Rightarrow> string \<Rightarrow> 'n \<Rightarrow> 'n::ord) \<Rightarrow> string \<Rightarrow> 'n \<Rightarrow> 'n \<Rightarrow> str \<Rightarrow> str list list" where
  "word_groups sw font fsize max_width text =
     (case group_loop sw font fsize max_width (str_split text) ([], []) of
        (groups, cur) \<Rightarrow> if cur \<noteq> [] then groups @ [cur] else groups)"

text \<open>
  A fresh document with an empty canvas, for concrete runs.
\<close>

definition blank_doc :: "int ERPTrainingDoc" where
  "blank_doc = \<lparr>doc_c = [], doc_page_num = 0, doc_y = 0\<rparr>"

section \<open>The width of a text in a font\<close>

text \<open>
  The width the PDF library computes for a text in a TrueType font: the glyph advances of
  the characters, unsigned numbers of font units read from the font file, are added up and
  scaled by \<open>size / unitsPerEm\<close>. The advance table and \<open>unitsPerEm\<close> of the font are
  parameters.
\<close>

definition metric_width ::
  "(string \<Rightarrow> nat \<Rightarrow> nat) \<Rightarrow> nat \<Rightarrow> str \<Rightarrow> string \<Rightarrow> 'n \<Rightarrow> 'n::linordered_field" where
  "metric_width advance units_per_em text font fsize =
     fsize * of_nat (sum_list (map (advance font) text)) / of_nat units_per_em"

text \<open>
  A fixed-pitch advance table for concrete runs: every glyph is 600 units wide.
\<close>

definition plex_mono :: "string \<Rightarrow> nat \<Rightarrow> nat" where
  "plex_mono font ch = 600"

section \<open>Python floats\<close>

text \<open>
  A finite Python \<open>float\<close> is an IEEE 754 binary64 number; it is modelled by its exact
  rational value. \<open>binade x\<close> is the exponent \<open>e\<close> with \<open>2^e \<le> x < 2^(e+1)\<close> for a positive
  \<open>x\<close>, found from the bit lengths of numerator and denominator. \<open>round_double\<close> rounds a
  rational to the nearest binary64 number, ties to even: the spacing is \<open>2^(e-52)\<close>, and
  \<open>2^-1074\<close> for subnormal numbers. Infinities and NaN are left out: no result below
  comes near \<open>2^1024\<close>.
\<close>

datatype pyfloat = PyFloat rat

fun float_val :: "pyfloat \<Rightarrow> rat" where
  "float_val (PyFloat r) = r"

definition pow2 :: "int \<Rightarrow> rat" where
  "pow2 e = (if 0 \<le> e then 2 ^ nat e else 1 / 2 ^ nat (- e))"

definition binade :: "rat \<Rightarrow> int" where
  "binade x = (case quotient_of x of (p, q) \<Rightarrow>
     let n = bitlen p - bitlen q
     in if pow2 n \<le> x then n else n - 1)"

definition round_half_even :: "rat \<Rightarrow> int" where
  "round_half_even r = (let f = \<lfloor>r\<rfloor>; d = r - of_int f in
     if d < 1 / 2 then f else if 1 / 2 < d then f + 1 else if even f then f else f + 1)"

definition round_double :: "rat \<Rightarrow> rat" where
  "round_double x = (if x = 0 then 0 else
     let q = max (binade \<bar>x\<bar> - 52) (- 1074)
     in of_int (round_half_even (x / pow2 q)) * pow2 q)"

text \<open>
  Comparison is that of the values; \<open>-\<close> and \<open>*\<close> compute the exact result and round it
  once, as the hardware does.
\<close>

instantiation pyfloat :: "{ord, minus, times}"
begin

definition less_eq_pyfloat :: "pyfloat \<Rightarrow> pyfloat \<Rightarrow> bool" where
  "less_eq_pyfloat a b \<longleftrightarrow> float_val a \<le> float_val b"

definition less_pyfloat :: "pyfloat \<Rightarrow> pyfloat \<Rightarrow> bool" where
  "less_pyfloat a b \<longleftrightarrow> float_val a < float_val b"

definition minus_pyfloat :: "pyfloat \<Rightarrow> pyfloat \<Rightarrow> pyfloat" where
  "minus_pyfloat a b = PyFloat (round_double (float_val a - float_val b))"

definition times_pyfloat :: "pyfloat \<Rightarrow> pyfloat \<Rightarrow> pyfloat" where
  "times_pyfloat a b = PyFloat (round_double (float_val a * float_val b))"

instance ..

end

text \<open>
  \<open>py_float r\<close> is the float a decimal literal or \<open>float()\<close> gives for the number \<open>r\<close>.
\<close>

definition py_float :: "rat \<Rightarrow> pyfloat" where
  "py_float r = PyFloat (round_double r)"

text \<open>
  The fixed-pitch metric on floats, and a fresh document whose numbers are floats.
\<close>

definition fixed_pitch_float :: "str \<Rightarrow> string \<Rightarrow> pyfloat \<Rightarrow> pyfloat" where
  "fixed_pitch_float text font fsize = PyFloat (of_nat (length text)) * fsize"

definition blank_float_doc :: "pyfloat ERPTrainingDoc" where
  "blank_float_doc = \<lparr>doc_c = [], doc_page_num = 0, doc_y = PyFloat 0\<rparr>"

section \<open>Whitespace normalisation\<close>

text \<open>
  The normal form of a text as the specification words it: every run of consecutive
  whitespace is collapsed to a single space, and leading and trailing whitespace is
  removed. It is compared with what \<open>draw_wrapped_text\<close> does below.
\<close>

function collapse_runs :: "str \<Rightarrow> str" where
  "collapse_runs [] = []"
| "collapse_runs (ch # rest) =
     (if isspace ch then 32 # collapse_runs (dropWhile isspace rest)
      else ch # collapse_runs rest)"
  by pat_completeness auto
termination
  by (relation "measure length") (auto simp: less_Suc_eq_le length_dropWhile_le)

definition strip :: "str \<Rightarrow> str" where
  "strip text = rev (dropWhile isspace (rev (dropWhile isspace text)))"

definition normalize_ws :: "str \<Rightarrow> str" where
  "normalize_ws text = strip (collapse_runs text)"

section \<open>Whitespace splitting: lemmas\<close>

lemma u_space: "u '' '' = [32]"
  by (simp add: u_def)

lemma isspace_32: "isspace 32"
  by (simp add: isspace_def)

lemma split_from_space:
  "isspace ch \<Longrightarrow> split_from w (a @ ch # b) = split_from w a @ split_from [] b"
  by (induction a arbitrary: w) auto

lemma split_from_nonspace:
  "\<forall>ch \<in> set a. \<not> isspace ch \<Longrightarrow> split_from w (a @ b) = split_from (w @ a) b"
  by (induction a arbitrary: w) auto

lemma str_split_word: "word_ok w \<Longrightarrow> str_split w = [w]"
  using split_from_nonspace [of w "[]" "[]"] by (simp add: str_split_def word_ok_def)

lemma split_from_words_ok:
  "\<forall>ch \<in> set w. \<not> isspace ch \<Longrightarrow> x \<in> set (split_from w t) \<Longrightarrow> word_ok x"
proof (induction t arbitrary: w)
  case Nil
  then show ?case by (auto simp: word_ok_def split: if_splits)
next
  case (Cons ch rest)
  show ?case
  proof (cases "isspace ch")
    case True
    have "x = w \<and> w \<noteq> [] \<or> x \<in> set (split_from [] rest)"
      using Cons.prems(2) True by (auto split: if_splits)
    then show ?thesis
      using Cons.IH [of "[]"] Cons.prems(1) by (auto simp: word_ok_def)
  next
    case False
    then have "x \<in> set (split_from (w @ [ch]) rest)"
      using Cons.prems(2) by simp
    then show ?thesis
      using Cons.IH [of "w @ [ch]"] Cons.prems(1) False by auto
  qed
qed

lemma str_split_words_ok: "x \<in> set (str_split t) \<Longrightarrow> word_ok x"
  using split_from_words_ok [of "[]" x t] by (simp add: str_split_def)

lemma str_split_space:
  "str_split (a @ 32 # b) = str_split a @ str_split b"
  by (simp add: str_split_def split_from_space isspace_32)

lemma str_split_join:
  "\<forall>w \<in> set ws. word_ok w \<Longrightarrow> str_split (join_words ws) = ws"
proof (induction ws rule: join_words.induct)
  case 1
  show ?case by (simp add: str_split_def)
next
  case (2 w)
  then show ?case by (simp add: str_split_word)
next
  case (3 w v ws)
  then show ?case by (simp add: u_space str_split_space str_split_word)
qed

lemma split_from_all_space:
  "\<forall>ch \<in> set t. isspace ch \<Longrightarrow> split_from [] t = []"
  by (induction t) auto

lemma split_from_dropWhile:
  "split_from [] (dropWhile isspace t) = split_from [] t"
  by (induction t) auto

lemma split_from_trailing:
  "\<forall>ch \<in> set s. isspace ch \<Longrightarrow> split_from w (a @ s) = split_from w a"
  by (cases s) (simp_all add: split_from_space split_from_all_space)

lemma split_from_collapse: "split_from w (collapse_runs t) = split_from w t"
proof (induction t arbitrary: w rule: collapse_runs.induct)
  case 1
  show ?case by simp
next
  case (2 ch rest)
  show ?case
  proof (cases "isspace ch")
    case True
    then show ?thesis
      using 2(1) [OF True, of "[]"] by (simp add: isspace_32 split_from_dropWhile)
  next
    case False
    then show ?thesis
      using 2(2) [OF False, of "w @ [ch]"] by (simp add: isspace_32)
  qed
qed

lemma str_split_strip: "str_split (strip t) = str_split t"
proof -
  let ?d = "dropWhile isspace t"
  have "?d = rev (dropWhile isspace (rev ?d)) @ rev (takeWhile isspace (rev ?d))"
    by (metis rev_append rev_rev_ident takeWhile_dropWhile_id)
  moreover have "\<forall>ch \<in> set (rev (takeWhile isspace (rev ?d))). isspace ch"
    by (auto dest: set_takeWhileD)
  ultimately have "split_from [] ?d = split_from [] (rev (dropWhile isspace (rev ?d)))"
    using split_from_trailing by metis
  then show ?thesis
    by (simp add: str_split_def strip_def split_from_dropWhile)
qed

lemma str_split_normalize: "str_split (normalize_ws text) = str_split text"
  by (simp add: normalize_ws_def str_split_strip) (simp add: str_split_def split_from_collapse)

lemma str_split_quick: "str_split (u ''the quick brown fox'') =
    [u ''the'', u ''quick'', u ''brown'', u ''fox'']"
  by (simp add: str_split_def u_def isspace_def)

lemma str_split_a_b_c: "str_split (u ''a b c'') = [u ''a'', u ''b'', u ''c'']"
  by (simp add: str_split_def u_def isspace_def)

lemma str_split_a_b: "str_split (u ''a b'') = [u ''a'', u ''b'']"
  by (simp add: str_split_def u_def isspace_def)

section \<open>The wrapping loop on groups of words\<close>

lemma join_words_snoc:
  "join_words (ws @ [w]) = join_words ws @ (if ws \<noteq> [] then u '' '' else []) @ w"
  by (induction ws rule: join_words.induct) auto

lemma join_words_Nil_iff:
  "\<forall>w \<in> set ws. word_ok w \<Longrightarrow> join_words ws = [] \<longleftrightarrow> ws = []"
  by (induction ws rule: join_words.induct) (auto simp: word_ok_def)

lemma join_words_infix:
  "w \<in> set g \<Longrightarrow> \<exists>a c. join_words g = a @ w @ c"
proof (induction g rule: join_words.induct)
  case 1
  then show ?case by simp
next
  case (2 v)
  then have "join_words [v] = [] @ w @ []" by simp
  then show ?case by blast
next
  case (3 v v' ws)
  show ?case
  proof (cases "w = v")
    case True
    then have "join_words (v # v' # ws) = [] @ w @ (u '' '' @ join_words (v' # ws))" by simp
    then show ?thesis by blast
  next
    case False
    then obtain a c where "join_words (v' # ws) = a @ w @ c"
      using 3 by auto
    then have "join_words (v # v' # ws) = (v @ u '' '' @ a) @ w @ c" by simp
    then show ?thesis by blast
  qed
qed

lemma wrap_loop_groups:
  "\<forall>w \<in> set cur \<union> set words. word_ok w \<Longrightarrow>
   wrap_loop sw font fsize max_width words (map join_words groups, join_words cur) =
   map_prod (map join_words) join_words
     (group_loop sw font fsize max_width words (groups, cur))"
proof (induction words arbitrary: groups cur)
  case Nil
  show ?case by simp
next
  case (Cons word words)
  have nil: "join_words cur = [] \<longleftrightarrow> cur = []"
    using Cons.prems by (simp add: join_words_Nil_iff)
  have step:
    "wrap_loop sw font fsize max_width (word # words) (map join_words groups, join_words cur) =
       (if sw (join_words (cur @ [word])) font fsize \<le> max_width
        then wrap_loop sw font fsize max_width words
               (map join_words groups, join_words (cur @ [word]))
        else wrap_loop sw font fsize max_width words
               (if cur \<noteq> [] then map join_words (groups @ [cur]) else map join_words groups,
                join_words [word]))"
    by (simp add: Let_def join_words_snoc nil)
  have a: "\<forall>w \<in> set (cur @ [word]) \<union> set words. word_ok w"
    using Cons.prems by auto
  have b: "\<forall>w \<in> set [word] \<union> set words. word_ok w"
    using Cons.prems by auto
  show ?case
    unfolding step
    using Cons.IH [OF a, of groups] Cons.IH [OF b, of "groups @ [cur]"] Cons.IH [OF b, of groups]
    by simp
qed

lemma group_loop_concat:
  "group_loop sw font fsize max_width words (groups, cur) = (groups', cur') \<Longrightarrow>
   concat groups' @ cur' = concat groups @ cur @ words"
  by (induction words arbitrary: groups cur) (auto split: if_splits)

lemma group_loop_nonempty:
  "group_loop sw font fsize max_width words (groups, cur) = (groups', cur') \<Longrightarrow>
   [] \<notin> set groups \<Longrightarrow> [] \<notin> set groups'"
  by (induction words arbitrary: groups cur) (auto split: if_splits)

lemma group_loop_fits:
  assumes "group_loop sw font fsize max_width words (groups, cur) = (groups', cur')"
    and "\<forall>g \<in> set (cur # groups). 1 < length g \<longrightarrow> sw (join_words g) font fsize \<le> max_width"
  shows "\<forall>g \<in> set (cur' # groups').
           1 < length g \<longrightarrow> sw (join_words g) font fsize \<le> max_width"
  using assms
proof (induction words arbitrary: groups cur)
  case Nil
  then show ?case by simp
next
  case (Cons word words)
  show ?case
  proof (cases "sw (join_words (cur @ [word])) font fsize \<le> max_width")
    case True
    have run: "group_loop sw font fsize max_width words (groups, cur @ [word]) =
        (groups', cur')"
      using Cons.prems(1) True by simp
    have inv: "\<forall>g \<in> set ((cur @ [word]) # groups).
        1 < length g \<longrightarrow> sw (join_words g) font fsize \<le> max_width"
      using Cons.prems(2) True by simp
    show ?thesis by (rule Cons.IH [OF run inv])
  next
    case False
    let ?gs = "if cur \<noteq> [] then groups @ [cur] else groups"
    have run: "group_loop sw font fsize max_width words (?gs, [word]) = (groups', cur')"
      using Cons.prems(1) False by simp
    have inv: "\<forall>g \<in> set ([word] # ?gs).
        1 < length g \<longrightarrow> sw (join_words g) font fsize \<le> max_width"
      using Cons.prems(2) by simp
    show ?thesis by (rule Cons.IH [OF run inv])
  qed
qed

lemma group_loop_singletons:
  fixes sw :: "str \<Rightarrow> string \<Rightarrow> 'n \<Rightarrow> 'n::ord"
  assumes "\<And>cur w. w \<in> set words \<Longrightarrow> \<not> sw (join_words (cur @ [w])) font fsize \<le> max_width"
  shows "(case group_loop sw font fsize max_width words (groups, cur) of
           (gs, c) \<Rightarrow> if c \<noteq> [] then gs @ [c] else gs) =
         (if cur \<noteq> [] then groups @ [cur] else groups) @ map (\<lambda>w. [w]) words"
  using assms
proof (induction words arbitrary: groups cur)
  case Nil
  show ?case by simp
next
  case (Cons w words)
  have "\<not> sw (join_words (cur @ [w])) font fsize \<le> max_width"
    using Cons.prems by simp
  then show ?case
    using Cons.IH [of "groups @ [cur]" "[w]"] Cons.IH [of groups "[w]"] Cons.prems
    by simp
qed

lemma word_groups_concat: "concat (word_groups sw font fsize max_width text) = str_split text"
proof -
  obtain groups cur where g:
    "group_loop sw font fsize max_width (str_split text) ([], []) = (groups, cur)"
    by (cases "group_loop sw font fsize max_width (str_split text) ([], [])")
  show ?thesis
    using group_loop_concat [OF g] by (auto simp: word_groups_def g)
qed

lemma word_groups_nonempty: "[] \<notin> set (word_groups sw font fsize max_width text)"
proof -
  obtain groups cur where g:
    "group_loop sw font fsize max_width (str_split text) ([], []) = (groups, cur)"
    by (cases "group_loop sw font fsize max_width (str_split text) ([], [])")
  show ?thesis
    using group_loop_nonempty [OF g] by (simp add: word_groups_def g)
qed

lemma word_groups_fits:
  "g \<in> set (word_groups sw font fsize max_width text) \<Longrightarrow> 1 < length g \<Longrightarrow>
   sw (join_words g) font fsize \<le> max_width"
proof -
  obtain groups cur where g:
    "group_loop sw font fsize max_width (str_split text) ([], []) = (groups, cur)"
    by (cases "group_loop sw font fsize max_width (str_split text) ([], [])")
  assume "g \<in> set (word_groups sw font fsize max_width text)" "1 < length g"
  then show ?thesis
    using group_loop_fits [OF g] by (auto simp: word_groups_def g split: if_splits)
qed

lemma word_groups_words_ok:
  "g \<in> set (word_groups sw font fsize max_width text) \<Longrightarrow> w \<in> set g \<Longrightarrow> word_ok w"
proof -
  assume "g \<in> set (word_groups sw font fsize max_width text)" "w \<in> set g"
  then have "w \<in> set (concat (word_groups sw font fsize max_width text))" by auto
  then show ?thesis by (simp add: word_groups_concat str_split_words_ok)
qed

lemma wrap_lines_groups:
  "wrap_lines sw font fsize max_width text =
   map join_words (word_groups sw font fsize max_width text)"
proof -
  obtain groups cur where g:
    "group_loop sw font fsize max_width (str_split text) ([], []) = (groups, cur)"
    by (cases "group_loop sw font fsize max_width (str_split text) ([], [])")
  have "concat groups @ cur = str_split text"
    using group_loop_concat [OF g] by simp
  then have "\<forall>w \<in> set cur. word_ok w"
    using str_split_words_ok [of _ "text"] by (metis Un_iff set_append)
  then have nil: "join_words cur = [] \<longleftrightarrow> cur = []"
    by (rule join_words_Nil_iff)
  have "wrap_loop sw font fsize max_width (str_split text) ([], []) =
        (map join_words groups, join_words cur)"
    using wrap_loop_groups [of "[]" "str_split text" sw font fsize max_width "[]"]
    by (simp add: g str_split_words_ok)
  then show ?thesis
    by (simp add: wrap_lines_def word_groups_def g nil)
qed

lemma str_split_group:
  "g \<in> set (word_groups sw font fsize max_width text) \<Longrightarrow> str_split (join_words g) = g"
  using word_groups_words_ok [of g sw font fsize max_width "text"] by (simp add: str_split_join)

section \<open>The drawing loop\<close>

lemma draw_lines_append:
  "draw_lines cv x y leading lines =
   (cv @ fst (draw_lines [] x y leading lines), snd (draw_lines [] x y leading lines))"
proof (induction lines arbitrary: cv y)
  case Nil
  show ?case by simp
next
  case (Cons line lines)
  show ?case
    using Cons.IH [of "cv @ [DrawString x y line]" "y - leading"]
          Cons.IH [of "[DrawString x y line]" "y - leading"]
    by simp
qed

lemma draw_lines_positions:
  "fst (draw_lines [] x (y - of_nat n * leading) leading lines) =
     map (\<lambda>(k, line). DrawString x (y - of_nat k * leading) line) (enumerate n lines) \<and>
   snd (draw_lines [] x (y - of_nat n * leading) leading lines) =
     y - leading * of_nat (n + length lines)"
  for y :: "'n::comm_ring_1"
proof (induction lines arbitrary: n)
  case Nil
  show ?case by (simp add: algebra_simps)
next
  case (Cons line lines)
  have y: "y - of_nat n * leading - leading = y - of_nat (Suc n) * leading"
    by (simp add: algebra_simps)
  show ?case
    using Cons.IH [of "Suc n"]
          draw_lines_append [of "[DrawString x (y - of_nat n * leading) line]" x
            "y - of_nat (Suc n) * leading" leading lines]
    by (simp add: y)
qed

lemma drawn_strings_append: "drawn_strings (a @ b) = drawn_strings a @ drawn_strings b"
  by (induction a rule: drawn_strings.induct) auto

lemma drawn_strings_draw_lines: "drawn_strings (fst (draw_lines [] x y leading lines)) = lines"
proof (induction lines arbitrary: y)
  case Nil
  show ?case by simp
next
  case (Cons line lines)
  show ?case
    using Cons.IH [of "y - leading"]
          draw_lines_append [of "[DrawString x y line]" x "y - leading" leading lines]
    by simp
qed

lemma draw_wrapped_text_unfold:
  "draw_wrapped_text sw self text x y max_width font fsize color leading =
   (self\<lparr>doc_c := doc_c self @ [SaveState, SetFont font fsize, SetFillColor color]
        @ fst (draw_lines [] x y leading (wrap_lines sw font fsize max_width text))
        @ [RestoreState]\<rparr>,
    snd (draw_lines [] x y leading (wrap_lines sw font fsize max_width text)))"
  using draw_lines_append
    [of "doc_c self @ [SaveState, SetFont font fsize, SetFillColor color]" x y leading
        "wrap_lines sw font fsize max_width text"]
  by (simp add: draw_wrapped_text_def)

lemma output_lines_wrap_lines:
  "output_lines sw self text x y max_width font fsize color leading =
   wrap_lines sw font fsize max_width text"
  by (simp add: output_lines_def added_ops_def draw_wrapped_text_unfold
      drawn_strings_append drawn_strings_draw_lines)

lemma output_lines_groups:
  "output_lines sw self text x y max_width font fsize color leading =
   map join_words (word_groups sw font fsize max_width text)"
  by (simp add: output_lines_wrap_lines wrap_lines_groups)

lemma draw_lines_steps:
  "fst (draw_lines [] x (((\<lambda>v. v - leading) ^^ n) y) leading lines) =
     map (\<lambda>(k, line). DrawString x (((\<lambda>v. v - leading) ^^ k) y) line) (enumerate n lines) \<and>
   snd (draw_lines [] x (((\<lambda>v. v - leading) ^^ n) y) leading lines) =
     ((\<lambda>v. v - leading) ^^ (n + length lines)) y"
proof (induction lines arbitrary: n)
  case Nil
  show ?case by simp
next
  case (Cons line lines)
  show ?case
    using Cons.IH [of "Suc n"]
          draw_lines_append [of "[DrawString x (((\<lambda>v. v - leading) ^^ n) y) line]" x
            "((\<lambda>v. v - leading) ^^ Suc n) y" leading lines]
    by simp
qed

section \<open>The truncation loop\<close>

lemma truncate_step_length: "3 < length t \<Longrightarrow> length (truncate_step t) = length t - 1"
  by (simp add: truncate_step_def u_def)

lemma truncate_loop_step:
  "max_width < sw t font fsize \<and> 3 < length t \<Longrightarrow>
   truncate_loop sw font fsize max_width t =
   truncate_loop sw font fsize max_width (truncate_step t)"
  by (subst truncate_loop.simps) simp

lemma truncate_loop_stop:
  "\<not> (max_width < sw t font fsize \<and> 3 < length t) \<Longrightarrow>
   truncate_loop sw font fsize max_width t = t"
  by (subst truncate_loop.simps) (rule if_not_P)

lemma truncate_loop_post:
  fixes sw :: "str \<Rightarrow> string \<Rightarrow> 'n \<Rightarrow> 'n::linorder"
  shows "sw (truncate_loop sw font fsize w t) font fsize \<le> w \<or>
         length (truncate_loop sw font fsize w t) \<le> 3"
proof (induction sw font fsize w t rule: truncate_loop.induct)
  case (1 sw font fsize max_width t)
  show ?case
  proof (cases "max_width < sw t font fsize \<and> 3 < length t")
    case True
    have e: "truncate_loop sw font fsize max_width t =
        truncate_loop sw font fsize max_width (truncate_step t)"
      using True by (rule truncate_loop_step)
    show ?thesis
      unfolding e using True by (rule 1)
  next
    case False
    have e: "truncate_loop sw font fsize max_width t = t"
      using False by (rule truncate_loop_stop)
    show ?thesis
      unfolding e using False by (auto simp: not_less)
  qed
qed

lemma truncate_loop_iterations:
  "\<exists>k \<le> length t - 3. truncate_loop sw font fsize w t = (truncate_step ^^ k) t \<and>
     length (truncate_loop sw font fsize w t) = length t - k"
proof (induction sw font fsize w t rule: truncate_loop.induct)
  case (1 sw font fsize max_width t)
  show ?case
  proof (cases "max_width < sw t font fsize \<and> 3 < length t")
    case True
    have s: "truncate_loop sw font fsize max_width t =
        truncate_loop sw font fsize max_width (truncate_step t)"
      using True by (rule truncate_loop_step)
    obtain k where k: "k \<le> length (truncate_step t) - 3"
      and e: "truncate_loop sw font fsize max_width (truncate_step t) =
              (truncate_step ^^ k) (truncate_step t)"
      and l: "length (truncate_loop sw font fsize max_width (truncate_step t)) =
              length (truncate_step t) - k"
      using 1 [OF True] by blast
    have len: "3 < length t"
      using True by (rule conjunct2)
    have step: "length (truncate_step t) = length t - 1"
      using len by (rule truncate_step_length)
    have "Suc k \<le> length t - 3"
      using k len step by arith
    moreover have "truncate_loop sw font fsize max_width t = (truncate_step ^^ Suc k) t"
      using e by (simp add: s funpow_swap1)
    moreover have "length (truncate_loop sw font fsize max_width t) = length t - Suc k"
      using l step by (simp add: s)
    ultimately show ?thesis by blast
  next
    case False
    have "truncate_loop sw font fsize max_width t = t"
      using False by (rule truncate_loop_stop)
    then have "truncate_loop sw font fsize max_width t = (truncate_step ^^ 0) t \<and>
        length (truncate_loop sw font fsize max_width t) = length t - 0"
      by simp
    then show ?thesis by blast
  qed
qed

section \<open>The font metric\<close>

lemma metric_width_append:
  "metric_width advance upm (a @ b) font fsize =
   metric_width advance upm a font fsize + metric_width advance upm b font fsize"
  by (simp add: metric_width_def distrib_left add_divide_distrib)

lemma metric_width_nonneg:
  fixes fsize :: "'n::linordered_field"
  assumes "0 < metric_width advance upm b font fsize"
  shows "0 \<le> metric_width advance upm a font fsize"
proof -
  define c where "c = fsize / of_nat upm"
  define m :: 'n where "m = of_nat (sum_list (map (advance font) b))"
  define k :: 'n where "k = of_nat (sum_list (map (advance font) a))"
  have b: "metric_width advance upm b font fsize = c * m"
    by (simp add: metric_width_def c_def m_def)
  have a: "metric_width advance upm a font fsize = c * k"
    by (simp add: metric_width_def c_def k_def)
  have m: "0 \<le> m" and k: "0 \<le> k"
    by (simp_all add: m_def k_def)
  have "0 < c * m"
    using assms by (simp only: b)
  then have "0 < c"
    using m by (auto simp: zero_less_mult_iff)
  then have "0 \<le> c * k"
    using k by simp
  then show ?thesis
    by (simp only: a)
qed

section \<open>Concrete runs\<close>

lemma fixed_pitch_mono:
  "fixed_pitch b font 1 \<le> fixed_pitch (a @ b @ c) font 1"
  by (simp add: fixed_pitch_def)

lemma output_lines_quick:
  "output_lines fixed_pitch blank_doc (u ''the quick brown fox'') 0 100 9 ''IBMPlexSerif'' 1
     ''#2D3748'' 14 = [u ''the quick'', u ''brown fox'']"
  by (simp add: output_lines_wrap_lines wrap_lines_def str_split_quick)
     (simp add: u_def fixed_pitch_def)

lemma str_split_the_quick: "str_split (u ''the quick'') = [u ''the'', u ''quick'']"
  by (simp add: str_split_def u_def isspace_def)

text \<open>
  Float arithmetic at the numbers of the run below: \<open>0.1\<close>, \<open>100 - 0.1 - 0.1 - 0.1\<close>,
  \<open>0.1 * 3\<close> and \<open>100 - 0.1 * 3\<close>.
\<close>

lemma py_float_tenth: "py_float (1 / 10) = PyFloat (3602879701896397 / 36028797018963968)"
  by code_simp

lemma float_sub_first: "PyFloat 100 - PyFloat (3602879701896397 / 36028797018963968) =
    PyFloat (3514918771674317 / 35184372088832)"
  by code_simp

lemma float_sub_second: "PyFloat (3514918771674317 / 35184372088832) -
    PyFloat (3602879701896397 / 36028797018963968) = PyFloat (1755700167232717 / 17592186044416)"
  by code_simp

lemma float_sub_third: "PyFloat (1755700167232717 / 17592186044416) -
    PyFloat (3602879701896397 / 36028797018963968) = PyFloat (3507881897256551 / 35184372088832)"
  by code_simp

lemma float_mul_three: "PyFloat (3602879701896397 / 36028797018963968) * PyFloat 3 =
    PyFloat (1351079888211149 / 4503599627370496)"
  by code_simp

lemma float_sub_product: "PyFloat 100 - PyFloat (1351079888211149 / 4503599627370496) =
    PyFloat (7015763794513101 / 70368744177664)"
  by code_simp

lemma float_width_one: "PyFloat 1 * PyFloat 10 = PyFloat 10"
  by code_simp

lemma float_width_three: "PyFloat 3 * PyFloat 10 = PyFloat 30"
  by code_simp

section \<open>Properties of draw\_wrapped\_text\<close>

text \<open>
  C1, word conservation: for every text and every measure function, splitting each drawn
  line at whitespace and concatenating the results, in order, gives exactly the words of
  the input text. So every word is in exactly one line, in the original order, and no
  word is split.
\<close>

theorem word_conservation:
  "concat (map str_split (output_lines sw self text x y max_width font fsize color leading)) =
   str_split text"
proof -
  have "map str_split (map join_words (word_groups sw font fsize max_width text)) =
        word_groups sw font fsize max_width text"
    by (simp add: map_idI str_split_group)
  then show ?thesis
    by (simp only: output_lines_groups word_groups_concat)
qed

text \<open>
  C2, width bound: for every text, every \<open>max_width\<close> and every measure function, every
  drawn line that consists of more than one word measures at most \<open>max_width\<close>.
\<close>

theorem width_bound:
  "\<forall>line \<in> set (output_lines sw self text x y max_width font fsize color leading).
     1 < length (str_split line) \<longrightarrow> sw line font fsize \<le> max_width"
proof (intro ballI impI)
  fix line
  assume l: "line \<in> set (output_lines sw self text x y max_width font fsize color leading)"
    and n: "1 < length (str_split line)"
  from l obtain g where g: "g \<in> set (word_groups sw font fsize max_width text)"
    and line: "line = join_words g"
    by (auto simp: output_lines_groups)
  have "str_split line = g"
    using g line by (simp add: str_split_group)
  then show "sw line font fsize \<le> max_width"
    using word_groups_fits [OF g] n line by simp
qed

theorem width_bound_witness:
  "u ''the quick'' \<in> set (output_lines fixed_pitch blank_doc (u ''the quick brown fox'')
       0 100 9 ''IBMPlexSerif'' 1 ''#2D3748'' 14) \<and>
   1 < length (str_split (u ''the quick'')) \<and>
   fixed_pitch (u ''the quick'') ''IBMPlexSerif'' 1 \<le> 9"
proof -
  have a: "u ''the quick'' \<in> set (output_lines fixed_pitch blank_doc
       (u ''the quick brown fox'') 0 100 9 ''IBMPlexSerif'' 1 ''#2D3748'' 14)"
    by (simp add: output_lines_quick)
  have b: "1 < length (str_split (u ''the quick''))"
    by (simp add: str_split_the_quick)
  show ?thesis
    using a b width_bound [of fixed_pitch blank_doc "u ''the quick brown fox''" 0 100 9
      "''IBMPlexSerif''" 1 "''#2D3748''" 14]
    by blast
qed

text \<open>
  C3, single overlong word. As stated for every measure function the property fails: with
  a negative font size the fixed-pitch width of \<open>"a"\<close> is \<open>-1\<close>, above \<open>max_width = -2\<close>,
  while the candidate \<open>"a b"\<close> measures \<open>-3\<close> and is accepted, so the overlong word
  shares its line.
\<close>

theorem overlong_word_counterexample:
  "u ''a'' \<in> set (str_split (u ''a b'')) \<and>
   (- 2 :: int) < fixed_pitch (u ''a'') ''IBMPlexSerif'' (- 1) \<and>
   output_lines fixed_pitch blank_doc (u ''a b'') 0 100 (- 2) ''IBMPlexSerif'' (- 1)
     ''#2D3748'' 14 = [u ''a b'']"
  by (simp add: output_lines_wrap_lines wrap_lines_def str_split_a_b)
     (simp add: u_def fixed_pitch_def)

text \<open>
  C3 as amended: a word of the text that measures more than \<open>max_width\<close>, under a
  measure that never reports a text containing the word as narrower than the word alone,
  is drawn as a line of its own, unmodified, and every drawn line that contains the word
  is that word alone.
\<close>

theorem overlong_word_alone:
  fixes sw :: "str \<Rightarrow> string \<Rightarrow> 'n \<Rightarrow> 'n::{preorder,minus}"
  assumes word: "w \<in> set (str_split text)"
    and wide: "max_width < sw w font fsize"
    and mono: "\<And>a c. sw w font fsize \<le> sw (a @ w @ c) font fsize"
  shows "w \<in> set (output_lines sw self text x y max_width font fsize color leading) \<and>
    (\<forall>line \<in> set (output_lines sw self text x y max_width font fsize color leading).
       w \<in> set (str_split line) \<longrightarrow> line = w)"
proof -
  let ?gs = "word_groups sw font fsize max_width text"
  have not_fit: "\<not> sw w font fsize \<le> max_width"
    using wide unfolding less_le_not_le by (rule conjunct2)
  have alone: "g = [w]" if g: "g \<in> set ?gs" and w: "w \<in> set g" for g
  proof -
    obtain a c where j: "join_words g = a @ w @ c"
      using join_words_infix [OF w] by blast
    have "\<not> 1 < length g"
    proof
      assume "1 < length g"
      then have "sw (a @ w @ c) font fsize \<le> max_width"
        using word_groups_fits [OF g] by (simp only: j)
      then have "sw w font fsize \<le> max_width"
        by (rule order_trans [OF mono])
      then show False using not_fit by (rule notE [rotated])
    qed
    then have "length g \<le> 1" by simp
    then show ?thesis
      using w by (cases g) simp_all
  qed
  have "w \<in> set (concat ?gs)"
    using word by (simp only: word_groups_concat)
  then obtain g where g: "g \<in> set ?gs" "w \<in> set g"
    unfolding set_concat by blast
  have "g = [w]" using g by (rule alone)
  then have "[w] \<in> set ?gs" using g(1) by simp
  then have "join_words [w] \<in> set (map join_words ?gs)" by (simp only: set_map imageI)
  then have first: "w \<in> set (output_lines sw self text x y max_width font fsize color leading)"
    by (simp add: output_lines_groups)
  have second: "line = w"
    if l: "line \<in> set (output_lines sw self text x y max_width font fsize color leading)"
      and s: "w \<in> set (str_split line)" for line
  proof -
    from l obtain g where g: "g \<in> set ?gs" and line: "line = join_words g"
      by (auto simp: output_lines_groups)
    have "str_split line = g" using g line by (simp add: str_split_group)
    then have "w \<in> set g" using s by simp
    then have "g = [w]" using g by (simp only: alone)
    then show ?thesis using line by simp
  qed
  show ?thesis using first second by blast
qed

theorem overlong_word_alone_witness:
  "u ''quick'' \<in> set (str_split (u ''a quick b'')) \<and>
   (4 :: int) < fixed_pitch (u ''quick'') ''IBMPlexSerif'' 1 \<and>
   u ''quick'' \<in> set (output_lines fixed_pitch blank_doc (u ''a quick b'') 0 100 4
     ''IBMPlexSerif'' 1 ''#2D3748'' 14)"
proof -
  have h1: "u ''quick'' \<in> set (str_split (u ''a quick b''))"
    by (simp add: str_split_def u_def isspace_def)
  have h2: "(4 :: int) < fixed_pitch (u ''quick'') ''IBMPlexSerif'' 1"
    by (simp add: fixed_pitch_def u_def)
  have h3: "\<And>a c. fixed_pitch (u ''quick'') ''IBMPlexSerif'' 1
      \<le> fixed_pitch (a @ u ''quick'' @ c) ''IBMPlexSerif'' 1"
    by (rule fixed_pitch_mono)
  show ?thesis
    using h1 h2 overlong_word_alone [where sw = fixed_pitch, OF h1 h2 h3, THEN conjunct1] by blast
qed

text \<open>
  C4, cursor arithmetic. As stated for every input the property fails on Python floats,
  where each \<open>y -= leading\<close> rounds: from \<open>y = 100.0\<close> with \<open>leading = 0.1\<close> the three lines
  of \<open>"a b c"\<close> end at \<open>99.70000000000002\<close>, while \<open>100.0 - 0.1 * 3\<close> is \<open>99.7\<close>.
\<close>

theorem cursor_arithmetic_counterexample:
  "output_lines fixed_pitch_float blank_float_doc (u ''a b c'') (PyFloat 72) (PyFloat 100)
     (PyFloat 0) ''IBMPlexSerif'' (PyFloat 10) ''#2D3748'' (py_float (1 / 10)) =
     [u ''a'', u ''b'', u ''c''] \<and>
   snd (draw_wrapped_text fixed_pitch_float blank_float_doc (u ''a b c'') (PyFloat 72)
     (PyFloat 100) (PyFloat 0) ''IBMPlexSerif'' (PyFloat 10) ''#2D3748'' (py_float (1 / 10))) =
     PyFloat (3507881897256551 / 35184372088832) \<and>
   PyFloat 100 - py_float (1 / 10) * PyFloat 3 = PyFloat (7015763794513101 / 70368744177664) \<and>
   snd (draw_wrapped_text fixed_pitch_float blank_float_doc (u ''a b c'') (PyFloat 72)
     (PyFloat 100) (PyFloat 0) ''IBMPlexSerif'' (PyFloat 10) ''#2D3748'' (py_float (1 / 10))) \<noteq>
     PyFloat 100 - py_float (1 / 10) * PyFloat 3"
proof -
  have lines: "wrap_lines fixed_pitch_float ''IBMPlexSerif'' (PyFloat 10) (PyFloat 0)
      (u ''a b c'') = [u ''a'', u ''b'', u ''c'']"
    by (simp add: wrap_lines_def str_split_a_b_c)
       (simp add: u_def fixed_pitch_float_def float_width_one float_width_three less_eq_pyfloat_def)
  have end_y: "snd (draw_wrapped_text fixed_pitch_float blank_float_doc (u ''a b c'')
      (PyFloat 72) (PyFloat 100) (PyFloat 0) ''IBMPlexSerif'' (PyFloat 10) ''#2D3748''
      (py_float (1 / 10))) = PyFloat (3507881897256551 / 35184372088832)"
    by (simp add: draw_wrapped_text_unfold lines py_float_tenth float_sub_first float_sub_second float_sub_third)
  have closed: "PyFloat 100 - py_float (1 / 10) * PyFloat 3 =
      PyFloat (7015763794513101 / 70368744177664)"
    by (simp add: py_float_tenth float_mul_three float_sub_product)
  show ?thesis
    by (simp add: output_lines_wrap_lines lines end_y closed)
qed

text \<open>
  C4 as amended: for every input and every arithmetic, line \<open>k\<close> (counted from 0) of the
  wrapped lines is drawn at the position reached from \<open>y\<close> by subtracting \<open>leading\<close>
  \<open>k\<close> times, between the calls that save and restore the graphics state, and the value
  returned is the position reached after as many subtractions as there are lines. Where
  the arithmetic is exact (a commutative ring: Python ints, the rationals) these
  positions are \<open>y - k * leading\<close> and the value returned is \<open>y - leading * n\<close> for \<open>n\<close>
  lines.
\<close>

theorem cursor_arithmetic:
  fixes y leading :: "'n::{ord,minus}" and y' leading' :: "'r::{comm_ring_1,ord}"
  shows "draw_wrapped_text sw self text x y max_width font fsize color leading =
      (self\<lparr>doc_c := doc_c self @ [SaveState, SetFont font fsize, SetFillColor color]
          @ map (\<lambda>(k, line). DrawString x (((\<lambda>v. v - leading) ^^ k) y) line)
              (enumerate 0 (wrap_lines sw font fsize max_width text))
          @ [RestoreState]\<rparr>,
       ((\<lambda>v. v - leading) ^^ length (wrap_lines sw font fsize max_width text)) y) \<and>
    draw_wrapped_text sw' self' text x' y' max_width' font fsize' color leading' =
      (self'\<lparr>doc_c := doc_c self' @ [SaveState, SetFont font fsize', SetFillColor color]
          @ map (\<lambda>(k, line). DrawString x' (y' - of_nat k * leading') line)
              (enumerate 0 (wrap_lines sw' font fsize' max_width' text))
          @ [RestoreState]\<rparr>,
       y' - leading' * of_nat (length (wrap_lines sw' font fsize' max_width' text)))"
proof
  show "draw_wrapped_text sw self text x y max_width font fsize color leading =
      (self\<lparr>doc_c := doc_c self @ [SaveState, SetFont font fsize, SetFillColor color]
          @ map (\<lambda>(k, line). DrawString x (((\<lambda>v. v - leading) ^^ k) y) line)
              (enumerate 0 (wrap_lines sw font fsize max_width text))
          @ [RestoreState]\<rparr>,
       ((\<lambda>v. v - leading) ^^ length (wrap_lines sw font fsize max_width text)) y)"
    using draw_lines_steps [where x = x and leading = leading and n = 0 and y = y
      and lines = "wrap_lines sw font fsize max_width text"]
    by (simp add: draw_wrapped_text_unfold)
  show "draw_wrapped_text sw' self' text x' y' max_width' font fsize' color leading' =
      (self'\<lparr>doc_c := doc_c self' @ [SaveState, SetFont font fsize', SetFillColor color]
          @ map (\<lambda>(k, line). DrawString x' (y' - of_nat k * leading') line)
              (enumerate 0 (wrap_lines sw' font fsize' max_width' text))
          @ [RestoreState]\<rparr>,
       y' - leading' * of_nat (length (wrap_lines sw' font fsize' max_width' text)))"
    using draw_lines_positions [of x' y' 0 leading' "wrap_lines sw' font fsize' max_width' text"]
    by (simp add: draw_wrapped_text_unfold)
qed

text \<open>
  C5, worked example: for the text \<open>"the quick brown fox"\<close>, if \<open>"the quick"\<close> and
  \<open>"brown fox"\<close> measure at most \<open>max_width\<close> and \<open>"the quick brown"\<close> measures more,
  then with \<open>y = 100\<close> and \<open>leading = 14\<close> the drawn lines are \<open>"the quick"\<close> and
  \<open>"brown fox"\<close> and the returned value is 72. (The widths of the other two-word and
  three-word joins are never asked for.)
\<close>

theorem worked_example:
  fixes sw :: "str \<Rightarrow> string \<Rightarrow> 'n \<Rightarrow> 'n::linordered_idom"
  assumes "sw (u ''the quick'') font fsize \<le> max_width"
    and "sw (u ''brown fox'') font fsize \<le> max_width"
    and "max_width < sw (u ''the quick brown'') font fsize"
  shows "output_lines sw self (u ''the quick brown fox'') x 100 max_width font fsize color 14 =
      [u ''the quick'', u ''brown fox''] \<and>
    snd (draw_wrapped_text sw self (u ''the quick brown fox'') x 100 max_width font fsize
      color 14) = 72"
proof -
  have "wrap_lines sw font fsize max_width (u ''the quick brown fox'') =
      [u ''the quick'', u ''brown fox'']"
    using assms unfolding wrap_lines_def str_split_quick
    by (cases "sw (u ''the'') font fsize \<le> max_width") (simp_all add: u_def Let_def)
  then show ?thesis
    by (simp add: output_lines_wrap_lines draw_wrapped_text_unfold)
qed

theorem worked_example_witness:
  "fixed_pitch (u ''the quick'') ''IBMPlexSerif'' 1 \<le> 9 \<and>
   fixed_pitch (u ''brown fox'') ''IBMPlexSerif'' 1 \<le> 9 \<and>
   9 < fixed_pitch (u ''the quick brown'') ''IBMPlexSerif'' 1 \<and>
   output_lines fixed_pitch blank_doc (u ''the quick brown fox'') 0 100 9 ''IBMPlexSerif'' 1
     ''#2D3748'' 14 = [u ''the quick'', u ''brown fox''] \<and>
   snd (draw_wrapped_text fixed_pitch blank_doc (u ''the quick brown fox'') 0 100 9
     ''IBMPlexSerif'' 1 ''#2D3748'' 14) = 72"
proof -
  have h1: "fixed_pitch (u ''the quick'') ''IBMPlexSerif'' 1 \<le> 9"
    by (simp add: fixed_pitch_def u_def)
  have h2: "fixed_pitch (u ''brown fox'') ''IBMPlexSerif'' 1 \<le> 9"
    by (simp add: fixed_pitch_def u_def)
  have h3: "9 < fixed_pitch (u ''the quick brown'') ''IBMPlexSerif'' 1"
    by (simp add: fixed_pitch_def u_def)
  show ?thesis
    using h1 h2 h3 worked_example [where sw = fixed_pitch, OF h1 h2 h3] by blast
qed

text \<open>
  C6, empty and whitespace-only input: a text of whitespace characters only (the empty
  text included) draws no line; the canvas only sees the state saved, the font and colour
  set and the state restored, and the returned value is \<open>y\<close>. The model has no error
  branch: every function above is total.
\<close>

theorem whitespace_only:
  assumes "\<forall>ch \<in> set text. isspace ch"
  shows "output_lines sw self text x y max_width font fsize color leading = [] \<and>
    draw_wrapped_text sw self text x y max_width font fsize color leading =
      (self\<lparr>doc_c := doc_c self @
         [SaveState, SetFont font fsize, SetFillColor color, RestoreState]\<rparr>, y)"
proof -
  have "wrap_lines sw font fsize max_width text = []"
    using assms by (simp add: wrap_lines_def str_split_def split_from_all_space)
  then show ?thesis
    by (simp add: output_lines_wrap_lines draw_wrapped_text_unfold)
qed

theorem whitespace_only_witness:
  "isspace 32 \<and> isspace 9 \<and> isspace 10 \<and> isspace 8195 \<and>
   output_lines fixed_pitch blank_doc [32, 9, 10, 8195] 0 100 9 ''IBMPlexSerif'' 1
     ''#2D3748'' 14 = [] \<and>
   snd (draw_wrapped_text fixed_pitch blank_doc [32, 9, 10, 8195] 0 100 9 ''IBMPlexSerif'' 1
     ''#2D3748'' 14) = 100"
proof -
  have h: "\<forall>ch \<in> set [32, 9, 10, 8195]. isspace ch"
    by (simp add: isspace_def)
  show ?thesis
    using h whitespace_only [OF h, where sw = fixed_pitch and self = blank_doc and x = 0
      and y = 100 and max_width = 9 and font = "''IBMPlexSerif''" and fsize = 1
      and color = "''#2D3748''" and leading = 14]
    by simp
qed

text \<open>
  C7, whitespace-run normalisation: drawing a text and drawing its normal form (runs of
  whitespace collapsed to one space, leading and trailing whitespace removed) put the
  same calls on the canvas and return the same value.
\<close>

theorem whitespace_normalization:
  "draw_wrapped_text sw self (normalize_ws text) x y max_width font fsize color leading =
   draw_wrapped_text sw self text x y max_width font fsize color leading"
  by (simp add: draw_wrapped_text_def wrap_lines_def str_split_normalize)

text \<open>
  C8, degenerate \<open>max_width\<close>: for \<open>max_width \<le> 0\<close> and a text whose every word has a
  positive width in the font, every drawn line is exactly one word: the drawn lines are
  the words of the text. The width is the font metric \<open>metric_width\<close>, for every advance
  table, \<open>unitsPerEm\<close> and size.
\<close>

theorem degenerate_max_width:
  fixes fsize :: "'n::linordered_field"
  assumes mw: "max_width \<le> 0"
    and pos: "\<forall>w \<in> set (str_split text). 0 < metric_width advance upm w font fsize"
  shows "output_lines (metric_width advance upm) self text x y max_width font fsize color leading
    = str_split text"
proof -
  have no_fit: "\<not> metric_width advance upm (join_words (cur @ [w])) font fsize \<le> max_width"
    if w: "w \<in> set (str_split text)" for cur w
  proof -
    have p: "0 < metric_width advance upm w font fsize"
      using pos w by blast
    obtain a where a: "join_words (cur @ [w]) = a @ w"
      by (simp add: join_words_snoc)
    have "0 \<le> metric_width advance upm a font fsize"
      using p by (rule metric_width_nonneg)
    then have "0 < metric_width advance upm (join_words (cur @ [w])) font fsize"
      using p by (simp add: a metric_width_append)
    then show ?thesis
      using mw by simp
  qed
  have "word_groups (metric_width advance upm) font fsize max_width text =
      map (\<lambda>w. [w]) (str_split text)"
    using group_loop_singletons
      [of "str_split text" "metric_width advance upm" font fsize max_width "[]" "[]"] no_fit
    by (simp add: word_groups_def)
  then show ?thesis
    by (simp add: output_lines_groups comp_def)
qed

theorem degenerate_max_width_witness:
  "(0 :: rat) \<le> 0 \<and>
   0 < metric_width plex_mono 1000 (u ''a'') ''IBMPlexMono'' (10 :: rat) \<and>
   0 < metric_width plex_mono 1000 (u ''b'') ''IBMPlexMono'' (10 :: rat) \<and>
   output_lines (metric_width plex_mono 1000) \<lparr>doc_c = [], doc_page_num = 0, doc_y = 0\<rparr>
     (u ''a b'') 0 100 0 ''IBMPlexMono'' (10 :: rat) ''#2D3748'' 14 = [u ''a'', u ''b'']"
proof -
  have h1: "(0 :: rat) \<le> 0" by simp
  have h2: "\<forall>w \<in> set (str_split (u ''a b'')).
      0 < metric_width plex_mono 1000 w ''IBMPlexMono'' (10 :: rat)"
    by (simp add: str_split_a_b) (simp add: u_def metric_width_def plex_mono_def)
  show ?thesis
    using h2 degenerate_max_width [where advance = plex_mono and upm = 1000, OF h1 h2,
      where self = "\<lparr>doc_c = [], doc_page_num = 0, doc_y = 0\<rparr>"
      and x = 0 and y = 100 and color = "''#2D3748''" and leading = 14]
    by (simp add: str_split_a_b)
qed

text \<open>
  C9, determinism and statelessness: the calls added to the canvas and the returned value
  are functions of the arguments alone. They are the same whatever the document
  (its canvas so far, \<open>page_num\<close>, \<open>y\<close>) the method is called on, and the call changes
  nothing of the document but the canvas.
\<close>

theorem stateless:
  "\<exists>ops y'. \<forall>self.
     draw_wrapped_text sw self text x y max_width font fsize color leading =
       (self\<lparr>doc_c := doc_c self @ ops\<rparr>, y')"
  using draw_wrapped_text_unfold [of sw _ "text" x y max_width font fsize color leading]
  by blast

section \<open>Properties of draw\_text\<close>

text \<open>
  C10, truncation in \<open>draw_text\<close>. As stated for every \<open>max_width\<close> the property fails:
  \<open>if max_width:\<close> skips the loop for \<open>max_width = 0\<close>, so a text of five characters is
  drawn whole although it measures more than 0 and is longer than three characters.
\<close>

theorem truncation_counterexample:
  "drawn_strings (added_ops blank_doc
     (draw_text fixed_pitch blank_doc (u ''abcde'') 0 100 ''IBMPlexSerif'' 1 ''#2D3748''
        ''left'' (Some 0))) = [u ''abcde''] \<and>
   \<not> (fixed_pitch (u ''abcde'') ''IBMPlexSerif'' 1 \<le> 0 \<or> length (u ''abcde'') \<le> 3)"
  by (simp add: draw_text_def added_ops_def blank_doc_def fixed_pitch_def u_def)

text \<open>
  C10 as amended: for every text, every measure function and every \<open>max_width\<close> that is
  given and not zero, the truncation loop ends after at most \<open>len(text) - 3\<close> iterations
  (each one runs on a text longer than three characters and shortens it by one, so \<open>k\<close>
  iterations leave \<open>len(text) - k\<close> characters), and the one string then drawn measures at
  most \<open>max_width\<close> or has at most three characters.
\<close>

theorem truncation_terminates:
  fixes sw :: "str \<Rightarrow> string \<Rightarrow> 'n \<Rightarrow> 'n::{linorder,zero}"
  assumes "w \<noteq> 0"
  shows "\<exists>k s. k \<le> length text - 3 \<and> s = (truncate_step ^^ k) text \<and>
     length s = length text - k \<and>
     drawn_strings (added_ops self
       (draw_text sw self text x y font fsize color align (Some w))) = [s] \<and>
     (sw s font fsize \<le> w \<or> length s \<le> 3)"
proof -
  obtain k where k: "k \<le> length text - 3"
    and e: "truncate_loop sw font fsize w text = (truncate_step ^^ k) text"
    and l: "length (truncate_loop sw font fsize w text) = length text - k"
    using truncate_loop_iterations by blast
  have d: "drawn_strings (added_ops self
       (draw_text sw self text x y font fsize color align (Some w))) =
       [truncate_loop sw font fsize w text]"
    using assms by (simp add: draw_text_def added_ops_def Let_def)
  have p: "sw (truncate_loop sw font fsize w text) font fsize \<le> w \<or>
      length (truncate_loop sw font fsize w text) \<le> 3"
    by (rule truncate_loop_post)
  show ?thesis
    using k e l d p by (intro exI [of _ k] exI [of _ "truncate_loop sw font fsize w text"]) simp
qed

theorem truncation_terminates_witness:
  "(9 :: int) \<noteq> 0 \<and>
   drawn_strings (added_ops blank_doc
     (draw_text fixed_pitch blank_doc (u ''the quick brown fox'') 0 100 ''IBMPlexSerif'' 1
        ''#2D3748'' ''left'' (Some 9))) = [u ''the qu...''] \<and>
   u ''the qu...'' = (truncate_step ^^ 10) (u ''the quick brown fox'') \<and>
   fixed_pitch (u ''the qu...'') ''IBMPlexSerif'' 1 \<le> 9"
proof -
  have h: "(9 :: int) \<noteq> 0" by simp
  show ?thesis
    using truncation_terminates [where sw = fixed_pitch, OF h, where self = blank_doc
      and x = 0 and y = 100 and font = "''IBMPlexSerif''" and fsize = 1
      and color = "''#2D3748''" and align = "''left''", of "u ''the quick brown fox''"]
    by (simp add: draw_text_def added_ops_def blank_doc_def fixed_pitch_def u_def
        truncate_loop.simps truncate_step_def eval_nat_numeral)
qed

end
